theory Spec2Isabelle
  imports Complex_Main
begin

section \<open>The data stream of \<^verbatim>\<open>neurostack/data_streams/data_stream.py\<close>\<close>

text \<open>
  The class \<^verbatim>\<open>DataStream\<close> keeps a dictionary \<^verbatim>\<open>channels\<close> from channel names to
  Python lists of data entries. The entries the class itself produces
  (\<^verbatim>\<open>_record_lsl_data_indefinitely\<close>) are two-element lists \<^verbatim>\<open>[timestamp, value]\<close>, and
  \<^verbatim>\<open>get_data\<close> reads the timestamp of an entry as \<^verbatim>\<open>entry[0]\<close>. An entry is modelled as a
  pair of a timestamp and an opaque value. Timestamps are Python floats; they are
  modelled as reals, so the model speaks about finite timestamps (no NaN, no infinity
  in a channel). The two float additions of the class, \<^verbatim>\<open>timestamp + time_correction\<close> and
  \<^verbatim>\<open>start_time + duration\<close>, are modelled with the rounding of Python's floats
  (\<open>float_add\<close> below).

  Python exceptions are values of \<open>py_error\<close>; a method returns \<open>Inl\<close> of the exception
  it raises or \<open>Inr\<close> of its result. What a method prints is returned as a list of lines.
\<close>

datatype py_error =
    Exception string   \<comment> \<open>\<^verbatim>\<open>raise Exception(msg)\<close>\<close>
  | KeyError string    \<comment> \<open>\<^verbatim>\<open>d[k]\<close> on a dictionary without the key \<^verbatim>\<open>k\<close>\<close>
  | IndexError         \<comment> \<open>\<^verbatim>\<open>xs[i]\<close> out of range\<close>
  | TypeError          \<comment> \<open>iterating or indexing \<^verbatim>\<open>None\<close>\<close>
  | NotFinite
      \<comment> \<open>not an exception of Python: it marks a run that this model does not follow,
          because an entry would get an infinite timestamp\<close>

subsection \<open>Float addition\<close>

text \<open>
  A Python float is an IEEE 754 binary64 number, and \<^verbatim>\<open>x + y\<close> is the exact sum rounded to
  the nearest binary64 number, to the one with an even significand when two are
  equally near, and to an infinity when the rounded magnitude reaches \<open>2 ^ 1024\<close>. The
  sum of two finite floats is never NaN. A binary64 number with the exponent \<open>e\<close>
  (\<open>2 ^ e \<le> \<bar>x\<bar> < 2 ^ (e + 1)\<close>, and \<open>e\<close> at least \<open>- 1022\<close>) is a multiple of \<open>2 ^ (e - 52)\<close>.
  The two zeros of binary64 are not told apart: they compare equal.
\<close>

datatype pyfloat = Finite real | PosInf | NegInf

definition round_half_even :: "real \<Rightarrow> int" where
  "round_half_even x =
     (let f = \<lfloor>x\<rfloor>; d = x - of_int f
      in if d < 1 / 2 then f else if 1 / 2 < d then f + 1
         else if even f then f else f + 1)"

definition round_double :: "real \<Rightarrow> pyfloat" where
  "round_double x =
     (if x = 0 then Finite 0
      else
        (let e = max \<lfloor>log 2 \<bar>x\<bar>\<rfloor> (- 1022);
             q = 2 powi (e - 52);
             r = of_int (round_half_even (x / q)) * q
         in if 2 ^ 1024 \<le> \<bar>r\<bar> then (if 0 < x then PosInf else NegInf) else Finite r))"

definition float_add :: "real \<Rightarrow> real \<Rightarrow> pyfloat" where
  "float_add x y = round_double (x + y)"

text \<open>\<^verbatim>\<open>a > b\<close> for the result \<open>a\<close> of an addition and a finite float \<open>b\<close>.\<close>

definition float_gt :: "pyfloat \<Rightarrow> real \<Rightarrow> bool" where
  "float_gt a b = (case a of Finite x \<Rightarrow> b < x | PosInf \<Rightarrow> True | NegInf \<Rightarrow> False)"

type_synonym 'v sample = "real \<times> 'v"

record thread =
  thread_name :: string
  daemon :: bool
  ident :: nat

record 'v DataStream =
  channels :: "string \<rightharpoonup> 'v sample list"
  eeg_thread :: "thread option"
  eeg_thread_active :: bool
  eeg_channel_names :: "string list option"
  started_threads :: "thread list"
    \<comment> \<open>not an attribute of the object: the threads of the process that
        \<^verbatim>\<open>lsl_start\<close> has started, in the order of their \<^verbatim>\<open>start()\<close>\<close>

definition init :: "'v DataStream" where
  "init = \<lparr>channels = Map.empty, eeg_thread = None, eeg_thread_active = False,
            eeg_channel_names = None, started_threads = []\<rparr>"

definition not_exist_msg :: "string \<Rightarrow> string" where
  "not_exist_msg name = ''A channel with name '' @ name @ '' does not exist''"

definition already_exists_msg :: "string \<Rightarrow> string" where
  "already_exists_msg name = ''Channel with name '' @ name @ '' already exists''"

subsection \<open>Channel management\<close>

text \<open>A method that changes the object returns the lines it printed and the new state.\<close>

type_synonym 'v effect = "py_error + (string list \<times> 'v DataStream)"

definition then_do :: "'v effect \<Rightarrow> ('v DataStream \<Rightarrow> 'v effect) \<Rightarrow> 'v effect" where
  "then_do r f =
     (case r of
        Inl e \<Rightarrow> Inl e
      | Inr (out, s) \<Rightarrow>
          (case f s of Inl e \<Rightarrow> Inl e | Inr (out', s') \<Rightarrow> Inr (out @ out', s')))"

definition list_channels :: "'v DataStream \<Rightarrow> string set" where
  "list_channels s = dom (channels s)"

definition add_channel :: "'v DataStream \<Rightarrow> string \<Rightarrow> 'v effect" where
  "add_channel s name =
     (if channels s name \<noteq> None then Inr ([already_exists_msg name], s)
      else Inr ([], s\<lparr>channels := (channels s)(name \<mapsto> [])\<rparr>))"

definition add_data :: "'v DataStream \<Rightarrow> string \<Rightarrow> 'v sample \<Rightarrow> 'v effect" where
  "add_data s channel data =
     (case channels s channel of
        Some xs \<Rightarrow> Inr ([], s\<lparr>channels := (channels s)(channel \<mapsto> xs @ [data])\<rparr>)
      | None \<Rightarrow> Inr ([not_exist_msg channel], s))"

text \<open>A caller that appends the entries of a list one after the other.\<close>

fun add_all :: "'v DataStream \<Rightarrow> string \<Rightarrow> 'v sample list \<Rightarrow> 'v effect" where
  "add_all s channel [] = Inr ([], s)"
| "add_all s channel (d # ds) = then_do (add_data s channel d) (\<lambda>s'. add_all s' channel ds)"

subsection \<open>Queries\<close>

text \<open>
  The first loop of \<^verbatim>\<open>get_data\<close>:
  \<^verbatim>\<open>
  start = 0
  while start_time > self.channels[channel][start][0]:
      start += 1
      if start == len(self.channels[channel]):
          return []
  \<close>
  The loop test reads entry \<open>start\<close> with no bound check, so it raises IndexError when
  \<open>start\<close> is not an index of the list. The result \<open>None\<close> is the early \<^verbatim>\<open>return []\<close>.
\<close>

function find_start :: "'v sample list \<Rightarrow> real \<Rightarrow> nat \<Rightarrow> py_error + nat option" where
  "find_start ch start_time start =
     (if length ch \<le> start then Inl IndexError
      else if start_time > fst (ch ! start) then
        (if Suc start = length ch then Inr None
         else find_start ch start_time (Suc start))
      else Inr (Some start))"
  by pat_completeness auto
termination
  by (relation "measure (\<lambda>(ch, t, start). length ch - start)") auto

declare find_start.simps [simp del]

text \<open>
  The second loop, where \<^verbatim>\<open>stop_time = start_time + duration\<close> is a float sum:
  \<^verbatim>\<open>
  end = start
  while end < len(self.channels[channel]) and stop_time > self.channels[channel][end][0]:
      end += 1
  \<close>
\<close>

function find_stop :: "'v sample list \<Rightarrow> pyfloat \<Rightarrow> nat \<Rightarrow> nat" where
  "find_stop ch stop_time end =
     (if end < length ch \<and> float_gt stop_time (fst (ch ! end))
      then find_stop ch stop_time (Suc end) else end)"
  by pat_completeness auto
termination
  by (relation "measure (\<lambda>(ch, t, end). length ch - end)") auto

declare find_stop.simps [simp del]

text \<open>The slice \<^verbatim>\<open>xs[start:end]\<close> for indices that are not negative.\<close>

definition slice :: "'a list \<Rightarrow> nat \<Rightarrow> nat \<Rightarrow> 'a list" where
  "slice xs start end = drop start (take end xs)"

text \<open>The branch of \<^verbatim>\<open>get_data\<close> for one channel name (the argument is not a list).\<close>

definition get_data_one ::
  "'v DataStream \<Rightarrow> string \<Rightarrow> real option \<Rightarrow> real option \<Rightarrow> py_error + 'v sample list" where
  "get_data_one s channel start_time duration =
     (case channels s channel of
        None \<Rightarrow> Inl (Exception (not_exist_msg channel))
      | Some ch \<Rightarrow>
          (case start_time of
             None \<Rightarrow> Inr ch
           | Some t \<Rightarrow>
               (case find_start ch t 0 of
                  Inl e \<Rightarrow> Inl e
                | Inr None \<Rightarrow> Inr []
                | Inr (Some start) \<Rightarrow>
                    (case duration of
                       None \<Rightarrow> Inr (drop start ch)
                     | Some d \<Rightarrow> Inr (slice ch start (find_stop ch (float_add t d) start))))))"

text \<open>
  The branch for a list of names: a dictionary is filled name by name, each entry with
  the result of the call for that name. An exception of such a call is not caught, so
  it leaves the loop and the method.
\<close>

fun get_data_loop ::
  "'v DataStream \<Rightarrow> string list \<Rightarrow> real option \<Rightarrow> real option \<Rightarrow>
     (string \<rightharpoonup> 'v sample list) \<Rightarrow> py_error + (string \<rightharpoonup> 'v sample list)" where
  "get_data_loop s [] start_time duration return_data = Inr return_data"
| "get_data_loop s (channel # rest) start_time duration return_data =
     (case get_data_one s channel start_time duration of
        Inl e \<Rightarrow> Inl e
      | Inr r \<Rightarrow> get_data_loop s rest start_time duration (return_data(channel \<mapsto> r)))"

datatype channels_arg = Name string | Names "string list"

datatype 'v data = Data "'v sample list" | DataDict "string \<rightharpoonup> 'v sample list"

definition get_data ::
  "'v DataStream \<Rightarrow> channels_arg \<Rightarrow> real option \<Rightarrow> real option \<Rightarrow> py_error + 'v data" where
  "get_data s chans start_time duration =
     (case chans of
        Name channel \<Rightarrow> map_sum id Data (get_data_one s channel start_time duration)
      | Names cs \<Rightarrow> map_sum id DataDict (get_data_loop s cs start_time duration Map.empty))"

text \<open>\<^verbatim>\<open>xs[i]\<close>: an index below zero counts from the end of the list.\<close>

definition py_index :: "'a list \<Rightarrow> int \<Rightarrow> py_error + 'a" where
  "py_index xs i =
     (if 0 \<le> i \<and> i < int (length xs) then Inr (xs ! nat i)
      else if i < 0 \<and> - int (length xs) \<le> i then Inr (xs ! nat (int (length xs) + i))
      else Inl IndexError)"

text \<open>
  \<^verbatim>\<open>get_latest_data\<close> for one channel name is \<^verbatim>\<open>self.channels[channels][-1]\<close>: a
  dictionary lookup, then the entry at index \<open>-1\<close>.
\<close>

definition get_latest_data :: "'v DataStream \<Rightarrow> string \<Rightarrow> py_error + 'v sample" where
  "get_latest_data s channel =
     (case channels s channel of
        None \<Rightarrow> Inl (KeyError channel)
      | Some ch \<Rightarrow> py_index ch (- 1))"

subsection \<open>The start-index loop with the entries it reads\<close>

text \<open>
  \<open>find_start_traced\<close> is \<open>find_start\<close> together with the list of the indices whose
  timestamp the loop test reads, in the order of the reads.
\<close>

function find_start_traced ::
  "'v sample list \<Rightarrow> real \<Rightarrow> nat \<Rightarrow> (py_error + nat option) \<times> nat list" where
  "find_start_traced ch start_time start =
     (if length ch \<le> start then (Inl IndexError, [])
      else if start_time > fst (ch ! start) then
        (if Suc start = length ch then (Inr None, [start])
         else (let (r, reads) = find_start_traced ch start_time (Suc start)
               in (r, start # reads)))
      else (Inr (Some start), [start]))"
  by pat_completeness auto
termination
  by (relation "measure (\<lambda>(ch, t, start). length ch - start)") auto

declare find_start_traced.simps [simp del]

subsection \<open>Recording from the LSL inlet\<close>

text \<open>
  \<^verbatim>\<open>lsl_start\<close> sets the flag, creates a daemon thread named \<^verbatim>\<open>lsl\<close> that runs
  \<^verbatim>\<open>_record_lsl_data_indefinitely\<close>, keeps it in \<^verbatim>\<open>_eeg_thread\<close> and starts it. \<^verbatim>\<open>lsl_stop\<close>
  clears the flag and the attribute. (\<^verbatim>\<open>lsl_connect\<close>, which talks to pylsl, is not
  modelled; what it leaves in \<^verbatim>\<open>_eeg_channel_names\<close> is part of the state.)
\<close>

definition lsl_start :: "'v DataStream \<Rightarrow> 'v effect" where
  "lsl_start s =
     (let t = \<lparr>thread_name = ''lsl'', daemon = True, ident = length (started_threads s)\<rparr>
      in Inr ([], s\<lparr>eeg_thread_active := True, eeg_thread := Some t,
                     started_threads := started_threads s @ [t]\<rparr>))"

definition lsl_stop :: "'v DataStream \<Rightarrow> 'v effect" where
  "lsl_stop s = Inr ([], s\<lparr>eeg_thread_active := False, eeg_thread := None\<rparr>)"

text \<open>
  One pass of the \<^verbatim>\<open>while\<close> loop of \<^verbatim>\<open>_record_lsl_data_indefinitely\<close> takes from the inlet
  the result of \<^verbatim>\<open>pull_sample()\<close>, a list of values and a timestamp, and the result of
  \<^verbatim>\<open>time_correction()\<close>.
\<close>

record 'v pull =
  samples :: "'v list"
  timestamp :: real
  time_correction :: real

text \<open>
  \<^verbatim>\<open>
  for channel_name in self._eeg_channel_names:
      if channel_name not in self.list_channels():
          self.add_channel(channel_name)
  \<close>
\<close>

fun create_channels :: "'v DataStream \<Rightarrow> string list \<Rightarrow> 'v effect" where
  "create_channels s [] = Inr ([], s)"
| "create_channels s (channel_name # rest) =
     (if channel_name \<notin> list_channels s
      then then_do (add_channel s channel_name) (\<lambda>s'. create_channels s' rest)
      else create_channels s rest)"

text \<open>
  \<^verbatim>\<open>
  for i in range(len(samples)):
      self.add_data(self._eeg_channel_names[i], [timestamp + time_correction] + [samples[i]])
  \<close>
  \<open>i\<close> is the loop variable. Each pass evaluates the name, then the float sum
  \<^verbatim>\<open>timestamp + time_correction\<close>. A sum that is infinite would be stored as the
  timestamp of the entry; the entries of this model have finite timestamps, so the
  model stops there with \<open>NotFinite\<close>.
\<close>

function add_pulled ::
  "'v DataStream \<Rightarrow> 'v list \<Rightarrow> real \<Rightarrow> real \<Rightarrow> nat \<Rightarrow> 'v effect" where
  "add_pulled s smp ts tc i =
     (if i < length smp then
        (case eeg_channel_names s of
           None \<Rightarrow> Inl TypeError
         | Some names \<Rightarrow>
             (case py_index names (int i) of
                Inl e \<Rightarrow> Inl e
              | Inr name \<Rightarrow>
                  (case float_add ts tc of
                     Finite t \<Rightarrow>
                       then_do (add_data s name (t, smp ! i))
                               (\<lambda>s'. add_pulled s' smp ts tc (Suc i))
                   | _ \<Rightarrow> Inl NotFinite)))
      else Inr ([], s))"
  by pat_completeness auto
termination
  by (relation "measure (\<lambda>(s, smp, ts, tc, i). length smp - i)") auto

declare add_pulled.simps [simp del]

text \<open>
  The \<^verbatim>\<open>while self._eeg_thread_active\<close> loop. The list is what the inlet delivers, pull
  by pull; the loop leaves when it reads the flag as false. \<^verbatim>\<open>pull_sample()\<close> waits for
  the next sample, so a thread whose inlet delivers nothing more does nothing more:
  for the empty list the result is the state the thread has reached.
\<close>

fun record_loop :: "'v DataStream \<Rightarrow> 'v pull list \<Rightarrow> 'v effect" where
  "record_loop s [] = Inr ([], s)"
| "record_loop s (p # ps) =
     (if eeg_thread_active s then
        then_do (add_pulled s (samples p) (timestamp p) (time_correction p) 0)
                (\<lambda>s'. record_loop s' ps)
      else Inr ([], s))"

definition record_lsl_data_indefinitely :: "'v DataStream \<Rightarrow> 'v pull list \<Rightarrow> 'v effect" where
  "record_lsl_data_indefinitely s pulls =
     (case eeg_channel_names s of
        None \<Rightarrow> Inl TypeError
      | Some names \<Rightarrow> then_do (create_channels s names) (\<lambda>s'. record_loop s' pulls))"

subsection \<open>The channel lists as objects\<close>

text \<open>
  \<^verbatim>\<open>self.channels[channel].append(data)\<close> stores the reference \<^verbatim>\<open>data\<close>, and
  \<^verbatim>\<open>self.channels[channel][:]\<close> builds a new list object holding the references of the
  channel's list. Who can change what then depends on which objects are shared, so
  these two paths are also modelled over a store of objects. Every object of this
  store is a Python list; its address is its index in \<open>objs\<close>. An element of a list is a
  float, an opaque value or a reference to a list. An entry \<^verbatim>\<open>[timestamp, value]\<close> is the
  list object \<open>[Float timestamp, Opaque value]\<close>.
\<close>

type_synonym addr = nat

datatype 'v pyval = Float real | Opaque 'v | Ref addr

record 'v heap_state =
  objs :: "'v pyval list list"
  channel_refs :: "string \<rightharpoonup> addr"   \<comment> \<open>\<^verbatim>\<open>self.channels\<close>: the list object of each channel\<close>

type_synonym 'v heap_effect = "py_error + (string list \<times> 'v heap_state)"

text \<open>\<^verbatim>\<open>add_channel\<close>: \<^verbatim>\<open>self.channels[name] = []\<close> allocates an empty list.\<close>

definition h_add_channel :: "'v heap_state \<Rightarrow> string \<Rightarrow> 'v heap_effect" where
  "h_add_channel st name =
     (if channel_refs st name \<noteq> None then Inr ([already_exists_msg name], st)
      else Inr ([], st\<lparr>objs := objs st @ [[]],
                       channel_refs := (channel_refs st)(name \<mapsto> length (objs st))\<rparr>))"

text \<open>\<^verbatim>\<open>add_data\<close>: the channel's list object gets one more element, in place.\<close>

definition h_add_data :: "'v heap_state \<Rightarrow> string \<Rightarrow> 'v pyval \<Rightarrow> 'v heap_effect" where
  "h_add_data st channel data =
     (case channel_refs st channel of
        Some a \<Rightarrow> Inr ([], st\<lparr>objs := (objs st)[a := objs st ! a @ [data]]\<rparr>)
      | None \<Rightarrow> Inr ([not_exist_msg channel], st))"

fun h_add_all :: "'v heap_state \<Rightarrow> string \<Rightarrow> 'v pyval list \<Rightarrow> 'v heap_effect" where
  "h_add_all st channel [] = Inr ([], st)"
| "h_add_all st channel (d # ds) =
     (case h_add_data st channel d of
        Inl e \<Rightarrow> Inl e
      | Inr (out, st') \<Rightarrow>
          (case h_add_all st' channel ds of
             Inl e \<Rightarrow> Inl e
           | Inr (out', st'') \<Rightarrow> Inr (out @ out', st'')))"

text \<open>
  \<^verbatim>\<open>get_data(channel)\<close> with \<^verbatim>\<open>start_time\<close> \<^verbatim>\<open>None\<close>: the result is the address of a new
  list object with the elements of the channel's list.
\<close>

definition h_get_data :: "'v heap_state \<Rightarrow> string \<Rightarrow> py_error + (addr \<times> 'v heap_state)" where
  "h_get_data st channel =
     (case channel_refs st channel of
        None \<Rightarrow> Inl (Exception (not_exist_msg channel))
      | Some a \<Rightarrow> Inr (length (objs st), st\<lparr>objs := objs st @ [objs st ! a]\<rparr>))"

text \<open>
  What a caller can do with the list \<open>q\<close> it got, at address \<open>r\<close>. Every change of the
  list itself (\<^verbatim>\<open>q.append(x)\<close>, \<^verbatim>\<open>del q[i]\<close>, \<^verbatim>\<open>q[i] = x\<close>, \<^verbatim>\<open>q.clear()\<close>, ...) leaves the
  object at \<open>r\<close> with some new elements \<open>ys\<close>: \<open>h_replace\<close>. The assignment \<^verbatim>\<open>q[i][j] = v\<close>
  changes the object that element \<open>i\<close> of \<open>q\<close> refers to: \<open>h_setitem2\<close>.
\<close>

definition h_replace :: "'v heap_state \<Rightarrow> addr \<Rightarrow> 'v pyval list \<Rightarrow> 'v heap_state" where
  "h_replace st r ys = st\<lparr>objs := (objs st)[r := ys]\<rparr>"

definition h_setitem2 ::
  "'v heap_state \<Rightarrow> addr \<Rightarrow> nat \<Rightarrow> nat \<Rightarrow> 'v pyval \<Rightarrow> py_error + 'v heap_state" where
  "h_setitem2 st r i j v =
     (if length (objs st ! r) \<le> i then Inl IndexError
      else (case objs st ! r ! i of
              Ref a \<Rightarrow>
                (if length (objs st ! a) \<le> j then Inl IndexError
                 else Inr (st\<lparr>objs := (objs st)[a := (objs st ! a)[j := v]]\<rparr>))
            | _ \<Rightarrow> Inl TypeError))"

text \<open>
  The content of the store that a reader sees: for a channel, its entries read through
  the references (\<open>None\<close> for an element that is not a reference to a list of a float
  and a value).
\<close>

definition read_entry :: "'v pyval list list \<Rightarrow> 'v pyval \<Rightarrow> 'v sample option" where
  "read_entry os v =
     (case v of
        Ref a \<Rightarrow>
          (if a < length os then
             (case os ! a of [Float t, Opaque x] \<Rightarrow> Some (t, x) | _ \<Rightarrow> None)
           else None)
      | _ \<Rightarrow> None)"

definition channel_view :: "'v heap_state \<Rightarrow> string \<Rightarrow> 'v sample option list option" where
  "channel_view st name =
     (case channel_refs st name of
        None \<Rightarrow> None
      | Some a \<Rightarrow> Some (map (read_entry (objs st)) (objs st ! a)))"

text \<open>
  References point into the store: every channel's list is an object of the store, and
  so is the target of every reference held by an object.
\<close>

definition ref_ok :: "'v pyval list list \<Rightarrow> 'v pyval \<Rightarrow> bool" where
  "ref_ok os v = (case v of Ref a \<Rightarrow> a < length os | _ \<Rightarrow> True)"

definition heap_ok :: "'v heap_state \<Rightarrow> bool" where
  "heap_ok st \<longleftrightarrow>
     (\<forall>name a. channel_refs st name = Some a \<longrightarrow> a < length (objs st)) \<and>
     list_all (list_all (ref_ok (objs st))) (objs st)"

subsection \<open>Example data\<close>

text \<open>A channel with the timestamps 0, 1, ..., 5.\<close>

definition six :: "nat sample list" where
  "six = [(0, 10), (1, 11), (2, 12), (3, 13), (4, 14), (5, 15)]"

definition empty_ch :: "nat DataStream" where
  "empty_ch = init\<lparr>channels := [''ch'' \<mapsto> []]\<rparr>"

definition six_ch :: "nat DataStream" where
  "six_ch = init\<lparr>channels := [''ch'' \<mapsto> six]\<rparr>"

text \<open>
  An object whose \<^verbatim>\<open>_eeg_channel_names\<close> are C1 and C2, as \<^verbatim>\<open>lsl_connect\<close> leaves them for
  a stream with these two channel labels.
\<close>

definition connected :: "nat DataStream" where
  "connected = init\<lparr>eeg_channel_names := Some [''C1'', ''C2'']\<rparr>"

text \<open>
  The object after \<^verbatim>\<open>lsl_start\<close> on \<open>connected\<close>, and three pulls of a source with two
  channels, at the timestamps 10, 11 and 12, each with the time correction 0.5.
\<close>

definition streaming :: "nat DataStream" where
  "streaming =
     connected\<lparr>eeg_thread_active := True,
               eeg_thread := Some \<lparr>thread_name = ''lsl'', daemon = True, ident = 0\<rparr>,
               started_threads := [\<lparr>thread_name = ''lsl'', daemon = True, ident = 0\<rparr>]\<rparr>"

definition three_pulls :: "nat pull list" where
  "three_pulls =
     [\<lparr>samples = [1, 2], timestamp = 10, time_correction = 0.5\<rparr>,
      \<lparr>samples = [3, 4], timestamp = 11, time_correction = 0.5\<rparr>,
      \<lparr>samples = [5, 6], timestamp = 12, time_correction = 0.5\<rparr>]"

text \<open>
  The entries that a list of pulls holds for the channel at position \<open>j\<close> of the channel
  names: one for each pull that has a value at position \<open>j\<close>, at the corrected time,
  which is the float sum when that sum is finite.
\<close>

definition finite_value :: "pyfloat \<Rightarrow> real option" where
  "finite_value a = (case a of Finite x \<Rightarrow> Some x | _ \<Rightarrow> None)"

definition stamped :: "nat \<Rightarrow> 'v pull list \<Rightarrow> 'v sample list" where
  "stamped j pulls =
     map (\<lambda>p. (the (finite_value (float_add (timestamp p) (time_correction p))), samples p ! j))
         (filter (\<lambda>p. j < length (samples p)) pulls)"

text \<open>
  Two stores of objects. In \<open>heap0\<close> the channel \<^verbatim>\<open>ch\<close> (the list at address 0) holds one
  entry, the list \<^verbatim>\<open>[1.0, 7]\<close> at address 1. In \<open>heap1\<close> the channel is empty, and two
  entries are allocated at the addresses 1 and 2.
\<close>

definition heap0 :: "nat heap_state" where
  "heap0 = \<lparr>objs = [[Ref 1], [Float 1, Opaque 7], [Float 2, Opaque 8]],
            channel_refs = [''ch'' \<mapsto> 0]\<rparr>"

definition heap1 :: "nat heap_state" where
  "heap1 = \<lparr>objs = [[], [Float 1, Opaque 7], [Float 2, Opaque 8]],
            channel_refs = [''ch'' \<mapsto> 0]\<rparr>"

section \<open>Properties\<close>

subsection \<open>Float sums\<close>

text \<open>How a real with a known exponent is rounded.\<close>

lemma round_double_at:
  assumes "2 powi e \<le> \<bar>x\<bar>" and "\<bar>x\<bar> < 2 powi (e + 1)" and "- 1022 \<le> e"
  shows "round_double x =
     (let q = 2 powi (e - 52);
          r = of_int (round_half_even (x / q)) * q
      in if 2 ^ 1024 \<le> \<bar>r\<bar> then (if 0 < x then PosInf else NegInf) else Finite r)"
proof -
  have pos: "0 < \<bar>x\<bar>" using assms(1) by (smt (verit) zero_less_power_int)
  have a: "2 powr (of_int e) \<le> \<bar>x\<bar>" using assms(1) by (simp add: powr_real_of_int')
  have "2 powr (of_int (e + 1)) = (2::real) powi (e + 1)" by (rule powr_real_of_int') simp_all
  then have b: "\<bar>x\<bar> < 2 powr (of_int e + 1)" using assms(2) by simp
  have "\<lfloor>log 2 \<bar>x\<bar>\<rfloor> = e"
    using a b pos by (simp add: floor_log_eq_powr_iff)
  then show ?thesis using pos assms(3) by (simp add: round_double_def Let_def max_def)
qed

text \<open>
  Sums that are binary64 numbers are exact; \<^verbatim>\<open>1e16 + 1.0\<close> is \<^verbatim>\<open>1e16\<close>, and the sum of the
  floats \<^verbatim>\<open>0.1\<close> and \<^verbatim>\<open>0.7\<close> is the float \<^verbatim>\<open>0.7999999999999999\<close>, below the float \<^verbatim>\<open>0.8\<close>.
\<close>

lemma float_add_10: "float_add 10 0.5 = Finite 10.5"
  unfolding float_add_def using round_double_at [of 3 "10 + 0.5"]
  by (simp add: round_half_even_def Let_def)

lemma float_add_11: "float_add 11 0.5 = Finite 11.5"
  unfolding float_add_def using round_double_at [of 3 "11 + 0.5"]
  by (simp add: round_half_even_def Let_def)

lemma float_add_12: "float_add 12 0.5 = Finite 12.5"
  unfolding float_add_def using round_double_at [of 3 "12 + 0.5"]
  by (simp add: round_half_even_def Let_def)

lemma float_add_2_2: "float_add 2 2 = Finite 4"
  unfolding float_add_def using round_double_at [of 2 "2 + 2"]
  by (simp add: round_half_even_def Let_def)

lemma float_add_rounds: "float_add 10000000000000000 1 = Finite 10000000000000000"
  unfolding float_add_def using round_double_at [of 53 "10000000000000000 + 1"]
  by (simp add: round_half_even_def Let_def)

lemma float_add_tenth:
  "float_add (3602879701896397 / 2 ^ 55) (3152519739159347 / 2 ^ 52)
     = Finite (7205759403792793 / 2 ^ 53)"
  unfolding float_add_def
  using round_double_at [of "- 1" "3602879701896397 / 2 ^ 55 + 3152519739159347 / 2 ^ 52"]
  by (simp add: round_half_even_def Let_def)

lemma float_gt_mono: "float_gt a y \<Longrightarrow> x \<le> y \<Longrightarrow> float_gt a x"
  by (cases a) (simp_all add: float_gt_def)

subsection \<open>The two loops of \<^verbatim>\<open>get_data\<close>\<close>

text \<open>
  From index \<open>start\<close> the first loop passes the entries with a timestamp below
  \<open>start_time\<close>; it returns early when it passes the last entry.
\<close>

lemma find_start_eq:
  "start < length ch \<Longrightarrow>
   find_start ch t start =
     (let k = start + length (takeWhile (\<lambda>x. fst x < t) (drop start ch))
      in if k = length ch then Inr None else Inr (Some k))"
proof (induction ch t start rule: find_start.induct)
  case (1 ch t start)
  have d: "drop start ch = ch ! start # drop (Suc start) ch"
    using "1.prems" by (simp add: Cons_nth_drop_Suc)
  show ?case
  proof (cases "t > fst (ch ! start)")
    case False
    then show ?thesis using "1.prems" d find_start.simps [of ch t start] by (simp add: Let_def)
  next
    case True
    show ?thesis
    proof (cases "Suc start = length ch")
      case True
      with \<open>t > fst (ch ! start)\<close> "1.prems" d find_start.simps [of ch t start]
      show ?thesis by (simp add: Let_def)
    next
      case False
      then have lt: "Suc start < length ch" using "1.prems" by simp
      have "find_start ch t start = find_start ch t (Suc start)"
        using True False "1.prems" find_start.simps [of ch t start] by simp
      also have "\<dots> = (let k = Suc start + length (takeWhile (\<lambda>x. fst x < t) (drop (Suc start) ch))
      in if k = length ch then Inr None else Inr (Some k))"
        using "1.IH" True False "1.prems" lt by simp
      finally show ?thesis using True d by (simp add: Let_def)
    qed
  qed
qed

text \<open>The second loop passes the entries with a timestamp below \<open>stop_time\<close>.\<close>

lemma find_stop_eq:
  "find_stop ch b e = e + length (takeWhile (\<lambda>x. float_gt b (fst x)) (drop e ch))"
proof (induction ch b e rule: find_stop.induct)
  case (1 ch b e)
  show ?case
  proof (cases "e < length ch")
    case False
    then show ?thesis using find_stop.simps [of ch b e] by simp
  next
    case True
    then have d: "drop e ch = ch ! e # drop (Suc e) ch"
      by (simp add: Cons_nth_drop_Suc)
    show ?thesis
    proof (cases "float_gt b (fst (ch ! e))")
      case False
      then show ?thesis using True d find_stop.simps [of ch b e] by simp
    next
      case gt: True
      have "find_stop ch b e = find_stop ch b (Suc e)"
        using True gt find_stop.simps [of ch b e] by simp
      then show ?thesis using "1.IH" True gt d by simp
    qed
  qed
qed

lemma find_start_Nil: "find_start [] t 0 = Inl IndexError"
  by (simp add: find_start.simps)

lemma find_start_beyond:
  assumes "ch \<noteq> []" and "\<forall>x\<in>set ch. fst x < t"
  shows "find_start ch t 0 = Inr None"
proof -
  have "takeWhile (\<lambda>x. fst x < t) ch = ch" using assms(2) by (simp add: takeWhile_eq_all_conv)
  then have "length (takeWhile (\<lambda>x. fst x < t) ch) = length ch" by (rule arg_cong)
  then show ?thesis using find_start_eq [of 0 ch t] assms(1) by (simp add: Let_def)
qed

lemma slice_plus: "slice xs k (k + m) = take m (drop k xs)"
  unfolding slice_def by (simp add: drop_take)

subsection \<open>Sorted channels\<close>

lemma sorted_takeWhile_filter:
  "sorted (map fst ch) \<Longrightarrow> \<forall>y\<in>set ch. a \<le> fst y \<Longrightarrow>
   takeWhile (\<lambda>x. float_gt b (fst x)) ch =
     filter (\<lambda>x. a \<le> fst x \<and> float_gt b (fst x)) ch"
proof (induction ch)
  case Nil
  then show ?case by simp
next
  case (Cons x xs)
  show ?case
  proof (cases "float_gt b (fst x)")
    case True
    then show ?thesis using Cons by simp
  next
    case False
    have "\<forall>y\<in>set xs. fst x \<le> fst y" using Cons.prems(1) by simp
    then have "\<forall>y\<in>set xs. \<not> float_gt b (fst y)" using False float_gt_mono by blast
    then have "filter (\<lambda>x. a \<le> fst x \<and> float_gt b (fst x)) xs = []"
      by (simp add: filter_empty_conv)
    then show ?thesis using False by simp
  qed
qed

lemma sorted_window:
  "sorted (map fst ch) \<Longrightarrow>
   takeWhile (\<lambda>x. float_gt b (fst x)) (dropWhile (\<lambda>x. fst x < a) ch) =
     filter (\<lambda>x. a \<le> fst x \<and> float_gt b (fst x)) ch"
proof (induction ch)
  case Nil
  then show ?case by simp
next
  case (Cons x xs)
  show ?case
  proof (cases "fst x < a")
    case True
    then have "\<not> a \<le> fst x" by simp
    then show ?thesis using True Cons by simp
  next
    case False
    have ge: "\<forall>y\<in>set (x # xs). a \<le> fst y" using Cons.prems False by fastforce
    have "dropWhile (\<lambda>x. fst x < a) (x # xs) = x # xs" using False by simp
    then show ?thesis using sorted_takeWhile_filter [OF Cons.prems ge] by simp
  qed
qed

lemma sorted_le_last:
  assumes "sorted (map fst ch)" and "x \<in> set ch"
  shows "fst x \<le> fst (last ch)"
proof -
  from assms(2) obtain i where i: "i < length ch" "ch ! i = x" by (auto simp: in_set_conv_nth)
  then have ne: "ch \<noteq> []" by auto
  have "map fst ch ! i \<le> map fst ch ! (length ch - 1)"
    using assms(1) i(1) by (intro sorted_nth_mono) auto
  then show ?thesis using i ne by (simp add: last_conv_nth)
qed

text \<open>
  On a channel that is not empty and whose timestamps do not decrease, a query with a
  start time and a duration returns the entries of the half-open window, in order.
  The end of the window is the float sum \<^verbatim>\<open>start_time + duration\<close>.
\<close>

lemma get_data_one_window:
  assumes "channels s channel = Some ch" and "ch \<noteq> []" and "sorted (map fst ch)"
  shows "get_data_one s channel (Some t) (Some d) =
           Inr (filter (\<lambda>x. t \<le> fst x \<and> float_gt (float_add t d) (fst x)) ch)"
proof -
  let ?P = "\<lambda>x::real \<times> 'a. fst x < t"
  let ?Q = "\<lambda>x::real \<times> 'a. float_gt (float_add t d) (fst x)"
  let ?k = "length (takeWhile ?P ch)"
  have fs: "find_start ch t 0 = (if ?k = length ch then Inr None else Inr (Some ?k))"
    using find_start_eq [of 0 ch t] assms(2) by (simp add: Let_def)
  show ?thesis
  proof (cases "?k = length ch")
    case True
    then have "takeWhile ?P ch = ch" by (metis takeWhile_eq_take take_all order_refl)
    then have "\<forall>x\<in>set ch. fst x < t" by (metis set_takeWhileD)
    then have "filter (\<lambda>x. t \<le> fst x \<and> float_gt (float_add t d) (fst x)) ch = []"
      by (auto simp: filter_empty_conv)
    then show ?thesis using fs True assms(1) by (simp add: get_data_one_def)
  next
    case False
    have dr: "drop ?k ch = dropWhile ?P ch" by (simp add: dropWhile_eq_drop)
    have "slice ch ?k (find_stop ch (float_add t d) ?k) =
            take (length (takeWhile ?Q (dropWhile ?P ch))) (dropWhile ?P ch)"
      by (simp only: find_stop_eq [of ch "float_add t d"] slice_plus dr)
    also have "\<dots> = takeWhile ?Q (dropWhile ?P ch)" by (rule takeWhile_eq_take [symmetric])
    also have "\<dots> = filter (\<lambda>x. t \<le> fst x \<and> float_gt (float_add t d) (fst x)) ch"
      using assms(3) by (rule sorted_window)
    finally show ?thesis using fs False assms(1) by (simp add: get_data_one_def)
  qed
qed

lemma get_data_window:
  assumes "channels s name = Some ch" and "ch \<noteq> []" and "sorted (map fst ch)"
  shows "get_data s (Name name) (Some start_time) (Some duration) =
           Inr (Data (filter (\<lambda>x. start_time \<le> fst x \<and>
                                  float_gt (float_add start_time duration) (fst x)) ch))"
  using get_data_one_window [OF assms] by (simp add: get_data_def)

lemma get_data_window_example:
  "get_data six_ch (Name ''ch'') (Some 2) (Some 2)
     = Inr (Data [(2, 12), (3, 13)])"
proof -
  have a: "channels six_ch ''ch'' = Some six" by (simp add: six_ch_def)
  have b: "six \<noteq> []" by (simp add: six_def)
  have c: "sorted (map fst six)" by (simp add: six_def)
  show ?thesis using get_data_window [OF a b c, of 2 2]
    by (simp add: six_def float_add_2_2 float_gt_def)
qed

subsection \<open>Claims about queries\<close>

text \<open>
  Claim C1. The claim: on every channel whose timestamps do not decrease, a query with
  \<open>startTime\<close> and \<open>duration\<close> returns the samples with
  \<open>startTime \<le> timestamp < startTime + duration\<close>. An empty channel is such a channel and
  has no sample in any window, so the claim asks for the empty sequence there. The
  code raises IndexError instead: the start-index loop reads entry 0 before any test
  of the length. (For channels that are not empty the claim holds, with the float sum
  \<^verbatim>\<open>start_time + duration\<close> as the end of the window: \<open>get_data_window\<close>, and
  \<open>get_data_window_example\<close> for the timestamps 0 to 5.)
\<close>

theorem get_data_empty_channel_window:
  "channels empty_ch ''ch'' = Some [] \<and> sorted (map fst ([] :: nat sample list)) \<and>
   get_data empty_ch (Name ''ch'') (Some 2) (Some 2) = Inl IndexError"
  by (simp add: empty_ch_def get_data_def get_data_one_def find_start_Nil)

text \<open>
  Claim C7. On an existing channel that has a last sample and whose timestamps do not
  decrease, a query with a start time above the timestamp of the last sample returns
  the empty sequence and raises nothing, with or without a duration.
\<close>

theorem get_data_beyond_last:
  assumes "channels s name = Some ch" and "ch \<noteq> []" and "sorted (map fst ch)"
    and "start_time > fst (last ch)"
  shows "get_data s (Name name) (Some start_time) duration = Inr (Data [])"
proof -
  have "\<forall>x\<in>set ch. fst x < start_time"
    using sorted_le_last [OF assms(3)] assms(4) by fastforce
  then have "find_start ch start_time 0 = Inr None"
    using assms(2) by (simp add: find_start_beyond)
  then show ?thesis using assms(1) by (simp add: get_data_def get_data_one_def)
qed

theorem get_data_beyond_last_witness:
  "channels six_ch ''ch'' = Some six \<and> six \<noteq> [] \<and>
   sorted (map fst six) \<and> 100 > fst (last six) \<and>
   get_data six_ch (Name ''ch'') (Some 100) None = Inr (Data [])"
proof -
  have a: "channels six_ch ''ch'' = Some six" by (simp add: six_ch_def)
  have b: "six \<noteq> []" by (simp add: six_def)
  have c: "sorted (map fst six)" by (simp add: six_def)
  have d: "100 > fst (last six)" by (simp add: six_def)
  show ?thesis using a b c d get_data_beyond_last [OF a b c d, of None] by simp
qed

text \<open>
  Claim C10. On a channel that exists and has no entry, a query with a start time
  raises IndexError, whatever the start time and the duration: the loop test reads
  entry 0 of the empty list.
\<close>

theorem get_data_empty_channel_raises:
  "channels s name = Some [] \<Longrightarrow>
   get_data s (Name name) (Some start_time) duration = Inl IndexError"
  by (simp add: get_data_def get_data_one_def find_start_Nil)

theorem get_data_empty_channel_raises_witness:
  "channels empty_ch ''ch'' = Some [] \<and>
   get_data empty_ch (Name ''ch'') (Some 2) None
     = Inl IndexError"
  using get_data_empty_channel_raises
    [of empty_ch "''ch''" 2 None]
  by (simp add: empty_ch_def)

subsection \<open>Queries for a list of channels\<close>

lemma get_data_loop_fail:
  "c \<in> set cs \<Longrightarrow> channels s c = None \<Longrightarrow> \<exists>e. get_data_loop s cs t d acc = Inl e"
proof (induction cs arbitrary: acc)
  case Nil
  then show ?case by simp
next
  case (Cons x xs)
  show ?case
  proof (cases "get_data_one s x t d")
    case (Inl e)
    then show ?thesis by simp
  next
    case (Inr r)
    then have "x \<noteq> c" using Cons.prems(2) by (auto simp: get_data_one_def)
    then have "c \<in> set xs" using Cons.prems(1) by simp
    then show ?thesis using Cons.IH [OF _ Cons.prems(2)] Inr by simp
  qed
qed

lemma get_data_loop_first_fail:
  "\<forall>n\<in>set pre. \<exists>r. get_data_one s n t d = Inr r \<Longrightarrow> get_data_one s c t d = Inl e \<Longrightarrow>
   get_data_loop s (pre @ c # post) t d acc = Inl e"
  by (induction pre arbitrary: acc) auto

lemma get_data_loop_ok:
  "\<forall>n\<in>set cs. \<exists>r. get_data_one s n t d = Inr r \<Longrightarrow>
   get_data_loop s cs t d acc =
     Inr (\<lambda>n. if n \<in> set cs then (case get_data_one s n t d of Inr r \<Rightarrow> Some r | Inl e \<Rightarrow> None)
               else acc n)"
proof (induction cs arbitrary: acc)
  case Nil
  then show ?case by simp
next
  case (Cons x xs)
  from Cons.prems obtain r where r: "get_data_one s x t d = Inr r" by auto
  have "get_data_loop s (x # xs) t d acc = get_data_loop s xs t d (acc(x \<mapsto> r))"
    using r by simp
  also have "\<dots> = Inr (\<lambda>n. if n \<in> set xs then (case get_data_one s n t d of Inr r \<Rightarrow> Some r | Inl e \<Rightarrow> None)
               else (acc(x \<mapsto> r)) n)"
    using Cons.IH Cons.prems by simp
  also have "\<dots> = Inr (\<lambda>n. if n \<in> set (x # xs) then (case get_data_one s n t d of Inr r \<Rightarrow> Some r | Inl e \<Rightarrow> None)
               else acc n)"
    using r by (auto simp: fun_eq_iff)
  finally show ?case .
qed

lemma get_data_Name_iff:
  "get_data s (Name n) t d = Inr (Data r) \<longleftrightarrow> get_data_one s n t d = Inr r"
  by (cases "get_data_one s n t d") (simp_all add: get_data_def)

text \<open>
  Claim C5, as stated, fails: with the list argument \<^verbatim>\<open>['ch', 'nope']\<close>, where \<^verbatim>\<open>nope\<close> is
  not a channel, \<^verbatim>\<open>get_data\<close> returns no dictionary at all. The exception of the call for
  \<^verbatim>\<open>nope\<close> leaves the method, and the result collected for \<^verbatim>\<open>ch\<close> is lost.
\<close>

theorem get_data_many_counterexample:
  "get_data six_ch (Names [''ch'', ''nope'']) None None = Inl (Exception (not_exist_msg ''nope''))"
  by (simp add: get_data_def get_data_one_def six_ch_def)

text \<open>
  Claim C5, amended. \<^verbatim>\<open>get_data\<close> with a list of names calls itself for each name in
  order. If a name of the list is not a channel, the whole call raises an exception
  and returns no per-name result; the exception is the one for the first absent name
  when the calls before it succeed. If the call for every name succeeds, the result is
  the dictionary whose keys are the names of the list, each with the result of the
  call for that name.
\<close>

theorem get_data_many:
  "((\<exists>c\<in>set cs. channels s c = None) \<longrightarrow> (\<exists>e. get_data s (Names cs) t d = Inl e)) \<and>
   (\<forall>pre c post. cs = pre @ c # post \<and> channels s c = None \<and>
        (\<forall>n\<in>set pre. \<exists>r. get_data s (Name n) t d = Inr (Data r)) \<longrightarrow>
        get_data s (Names cs) t d = Inl (Exception (not_exist_msg c))) \<and>
   ((\<forall>n\<in>set cs. \<exists>r. get_data s (Name n) t d = Inr (Data r)) \<longrightarrow>
      (\<exists>m. get_data s (Names cs) t d = Inr (DataDict m) \<and> dom m = set cs \<and>
           (\<forall>n\<in>set cs. get_data s (Name n) t d = Inr (Data (the (m n))))))"
proof (intro conjI impI allI)
  assume "\<exists>c\<in>set cs. channels s c = None"
  then obtain c where "c \<in> set cs" "channels s c = None" by auto
  then obtain e where "get_data_loop s cs t d Map.empty = Inl e"
    using get_data_loop_fail by blast
  then show "\<exists>e. get_data s (Names cs) t d = Inl e" by (simp add: get_data_def)
next
  fix pre c post
  assume a: "cs = pre @ c # post \<and> channels s c = None \<and>
        (\<forall>n\<in>set pre. \<exists>r. get_data s (Name n) t d = Inr (Data r))"
  then have "\<forall>n\<in>set pre. \<exists>r. get_data_one s n t d = Inr r"
    by (simp add: get_data_Name_iff)
  moreover have "get_data_one s c t d = Inl (Exception (not_exist_msg c))"
    using a by (simp add: get_data_one_def)
  ultimately have "get_data_loop s (pre @ c # post) t d Map.empty = Inl (Exception (not_exist_msg c))"
    by (rule get_data_loop_first_fail)
  then show "get_data s (Names cs) t d = Inl (Exception (not_exist_msg c))"
    using a by (simp add: get_data_def)
next
  assume "\<forall>n\<in>set cs. \<exists>r. get_data s (Name n) t d = Inr (Data r)"
  then have ok: "\<forall>n\<in>set cs. \<exists>r. get_data_one s n t d = Inr r"
    by (simp add: get_data_Name_iff)
  let ?m = "\<lambda>n. if n \<in> set cs then (case get_data_one s n t d of Inr r \<Rightarrow> Some r | Inl e \<Rightarrow> None)
               else None"
  have "get_data s (Names cs) t d = Inr (DataDict ?m)"
    using get_data_loop_ok [OF ok, of Map.empty] by (simp add: get_data_def)
  moreover have "dom ?m = set cs" using ok by (auto simp: dom_def split: if_splits)
  moreover have "\<forall>n\<in>set cs. get_data s (Name n) t d = Inr (Data (the (?m n)))"
    using ok by (auto simp: get_data_def)
  ultimately show "\<exists>m. get_data s (Names cs) t d = Inr (DataDict m) \<and> dom m = set cs \<and>
           (\<forall>n\<in>set cs. get_data s (Name n) t d = Inr (Data (the (m n))))"
    by blast
qed

theorem get_data_many_witness:
  "channels six_ch ''nope'' = None \<and>
   get_data six_ch (Name ''ch'') None None = Inr (Data six) \<and>
   (\<exists>e. get_data six_ch (Names [''ch'', ''nope'']) None None = Inl e) \<and>
   get_data six_ch (Names [''ch'', ''nope'']) None None = Inl (Exception (not_exist_msg ''nope'')) \<and>
   (\<exists>m. get_data six_ch (Names [''ch'']) None None = Inr (DataDict m) \<and> dom m = {''ch''} \<and>
        get_data six_ch (Name ''ch'') None None = Inr (Data (the (m ''ch''))))"
proof -
  have a: "channels six_ch ''nope'' = None" by (simp add: six_ch_def)
  have b: "get_data six_ch (Name ''ch'') None None = Inr (Data six)"
    by (simp add: get_data_def get_data_one_def six_ch_def)
  note two = get_data_many [of "[''ch'', ''nope'']" six_ch None None]
  note one = get_data_many [of "[''ch'']" six_ch None None]
  have c: "\<exists>e. get_data six_ch (Names [''ch'', ''nope'']) None None = Inl e"
    using two [THEN conjunct1] a by simp
  have d: "get_data six_ch (Names [''ch'', ''nope'']) None None
             = Inl (Exception (not_exist_msg ''nope''))"
    using two [THEN conjunct2, THEN conjunct1, rule_format, of "[''ch'']" "''nope''" "[]"] a b
    by simp
  have e: "\<exists>m. get_data six_ch (Names [''ch'']) None None = Inr (DataDict m) \<and> dom m = {''ch''} \<and>
        get_data six_ch (Name ''ch'') None None = Inr (Data (the (m ''ch'')))"
    using one [THEN conjunct2, THEN conjunct2] b by simp
  show ?thesis using a b c d e by blast
qed

subsection \<open>Appending to a channel that does not exist\<close>

text \<open>
  Claim C3, as stated, fails: \<^verbatim>\<open>add_data\<close> on a name that is not a channel raises
  nothing. It prints a line and returns.
\<close>

theorem add_data_absent_no_error:
  "add_data (init :: nat DataStream) ''nope'' (0, 0) = Inr ([not_exist_msg ''nope''], init) \<and>
   (\<forall>e. add_data (init :: nat DataStream) ''nope'' (0, 0) \<noteq> Inl e)"
  by (simp add: add_data_def init_def)

text \<open>
  Claim C3, amended. For every state and every name that is not a channel,
  \<^verbatim>\<open>add_data\<close> returns without an exception, prints that the channel does not exist,
  and leaves the state as it was; so it creates no channel.
\<close>

theorem add_data_absent:
  "channels s name = None \<Longrightarrow> add_data s name data = Inr ([not_exist_msg name], s)"
  by (simp add: add_data_def)

theorem add_data_absent_witness:
  "channels six_ch ''nope'' = None \<and>
   add_data six_ch ''nope'' (6, 16) = Inr ([not_exist_msg ''nope''], six_ch)"
proof -
  have a: "channels six_ch ''nope'' = None" by (simp add: six_ch_def)
  show ?thesis using a add_data_absent [OF a, of "(6, 16)"] by simp
qed

subsection \<open>The latest entry\<close>

lemma py_index_last: "xs \<noteq> [] \<Longrightarrow> py_index xs (- 1) = Inr (last xs)"
proof -
  assume ne: "xs \<noteq> []"
  then have pos: "Suc 0 \<le> length xs" by (cases xs) simp_all
  then have "nat (int (length xs) + - 1) = length xs - 1" by simp
  then show ?thesis using ne pos by (simp add: py_index_def last_conv_nth)
qed

lemma py_index_Nil: "py_index [] i = Inl IndexError"
  by (simp add: py_index_def)

text \<open>
  Claim C6. \<^verbatim>\<open>get_latest_data\<close> for one name raises KeyError when the name is not a
  channel (the claim's ChannelNotFound) and IndexError when the channel has no entry
  (the claim's EmptyChannel). After \<^verbatim>\<open>add_data\<close> of an entry to an existing channel it
  returns that entry: the most recently appended one. On every channel that has an
  entry it returns the last entry of the channel's list.
\<close>

theorem get_latest_data_cases:
  "(channels s name = None \<longrightarrow> get_latest_data s name = Inl (KeyError name)) \<and>
   (channels s name = Some [] \<longrightarrow> get_latest_data s name = Inl IndexError) \<and>
   (\<forall>ch. channels s name = Some ch \<and> ch \<noteq> [] \<longrightarrow>
      get_latest_data s name = Inr (last ch)) \<and>
   (\<forall>ch. channels s name = Some ch \<longrightarrow>
      (\<exists>s'. add_data s name data = Inr ([], s') \<and> channels s' name = Some (ch @ [data]) \<and>
            get_latest_data s' name = Inr data))"
  by (simp add: get_latest_data_def add_data_def py_index_Nil py_index_last)

theorem get_latest_data_cases_witness:
  "channels six_ch ''nope'' = None \<and> get_latest_data six_ch ''nope'' = Inl (KeyError ''nope'') \<and>
   channels empty_ch ''ch'' = Some [] \<and> get_latest_data empty_ch ''ch'' = Inl IndexError \<and>
   channels six_ch ''ch'' = Some six \<and> six \<noteq> [] \<and>
   get_latest_data six_ch ''ch'' = Inr (5, 15) \<and>
   (\<exists>s'. add_data six_ch ''ch'' (6, 16) = Inr ([], s') \<and> channels s' ''ch'' = Some (six @ [(6, 16)]) \<and>
         get_latest_data s' ''ch'' = Inr (6, 16))"
proof -
  have a: "channels six_ch ''nope'' = None" by (simp add: six_ch_def)
  have b: "channels empty_ch ''ch'' = Some []" by (simp add: empty_ch_def)
  have c: "channels six_ch ''ch'' = Some six" by (simp add: six_ch_def)
  have d: "six \<noteq> []" and e: "last six = (5, 15)" by (simp_all add: six_def)
  show ?thesis
    using a b c d e get_latest_data_cases [of six_ch "''nope''" "(6, 16)"]
      get_latest_data_cases [of empty_ch "''ch''" "(6, 16)"]
      get_latest_data_cases [of six_ch "''ch''" "(6, 16)"]
    by simp
qed

subsection \<open>Starting the recording thread\<close>

lemma lsl_start_connected: "lsl_start connected = Inr ([], streaming)"
  by (simp add: lsl_start_def streaming_def connected_def init_def Let_def)

text \<open>
  Claim C4, as stated, fails: \<^verbatim>\<open>lsl_start\<close> on an object that is already recording
  raises nothing and starts a second thread.
\<close>

theorem lsl_start_twice:
  "\<exists>s1 s2. lsl_start connected = Inr ([], s1) \<and> eeg_thread_active s1 \<and>
     lsl_start s1 = Inr ([], s2) \<and>
     started_threads s2 =
       [\<lparr>thread_name = ''lsl'', daemon = True, ident = 0\<rparr>,
        \<lparr>thread_name = ''lsl'', daemon = True, ident = 1\<rparr>]"
  by (simp add: lsl_start_def connected_def init_def Let_def)

text \<open>
  Claim C4, amended. \<^verbatim>\<open>lsl_start\<close> has no guard: in every state, recording or not, it
  returns without an exception, sets the flag, starts one more thread and keeps that
  thread in \<^verbatim>\<open>_eeg_thread\<close>. The channels stay as they were.
\<close>

theorem lsl_start_spawns:
  "\<exists>s' t. lsl_start s = Inr ([], s') \<and> eeg_thread_active s' \<and> eeg_thread s' = Some t \<and>
     started_threads s' = started_threads s @ [t] \<and> channels s' = channels s"
  by (simp add: lsl_start_def Let_def)

subsection \<open>How the start index is searched\<close>

lemma find_start_traced_fst: "fst (find_start_traced ch t i) = find_start ch t i"
proof (induction ch t i rule: find_start_traced.induct)
  case (1 ch t i)
  show ?case
  proof (cases "length ch \<le> i \<or> \<not> t > fst (ch ! i) \<or> Suc i = length ch")
    case True
    then show ?thesis
      using find_start_traced.simps [of ch t i] find_start.simps [of ch t i] by auto
  next
    case False
    then have "fst (find_start_traced ch t i) = fst (find_start_traced ch t (Suc i))"
      using find_start_traced.simps [of ch t i] by (simp add: case_prod_beta)
    also have "\<dots> = find_start ch t (Suc i)" using "1.IH" False by simp
    also have "\<dots> = find_start ch t i" using find_start.simps [of ch t i] False by simp
    finally show ?thesis .
  qed
qed

lemma find_start_reads:
  "i < length ch \<Longrightarrow>
   snd (find_start_traced ch t i) =
     [i..<min (length ch) (Suc (i + length (takeWhile (\<lambda>x. fst x < t) (drop i ch))))]"
proof (induction ch t i rule: find_start_traced.induct)
  case (1 ch t i)
  have d: "drop i ch = ch ! i # drop (Suc i) ch"
    using "1.prems" by (simp add: Cons_nth_drop_Suc)
  show ?case
  proof (cases "t > fst (ch ! i)")
    case False
    then have "snd (find_start_traced ch t i) = [i]"
      using find_start_traced.simps [of ch t i] "1.prems" by simp
    moreover have "min (length ch) (Suc i) = Suc i" using "1.prems" by simp
    ultimately show ?thesis using False d by simp
  next
    case True
    show ?thesis
    proof (cases "Suc i = length ch")
      case last: True
      then have "snd (find_start_traced ch t i) = [i]"
        using find_start_traced.simps [of ch t i] True by simp
      moreover have "drop (Suc i) ch = []" using last by simp
      moreover have "[i..<length ch] = [i]" using last [symmetric] by simp
      ultimately show ?thesis using True d by simp
    next
      case False
      then have lt: "Suc i < length ch" using "1.prems" by simp
      let ?k = "length (takeWhile (\<lambda>x. fst x < t) (drop (Suc i) ch))"
      have "snd (find_start_traced ch t i) = i # snd (find_start_traced ch t (Suc i))"
        using find_start_traced.simps [of ch t i] True False "1.prems"
        by (simp add: case_prod_beta)
      also have "snd (find_start_traced ch t (Suc i)) = [Suc i..<min (length ch) (Suc (Suc i + ?k))]"
        using "1.IH" True False "1.prems" lt by simp
      also have "i # [Suc i..<min (length ch) (Suc (Suc i + ?k))] =
                 [i..<min (length ch) (Suc (Suc i + ?k))]"
        using lt by (simp add: upt_conv_Cons)
      finally show ?thesis using True d by simp
    qed
  qed
qed

text \<open>
  Claim C9. The claim: the start index is found by binary search, in logarithmically
  many steps, not by a scan from the start of the sequence. The code scans: on every
  channel that is not empty the loop reads the timestamps at the indices 0, 1, 2, ...
  one after the other, up to the first entry that is not before the start time (or to
  the end). When the start time is after the first \<open>k\<close> entries it reads \<open>k + 1\<close>
  timestamps, and all \<open>n\<close> of them when it is after every entry.
\<close>

theorem find_start_scans_from_the_start:
  "ch \<noteq> [] \<Longrightarrow>
   fst (find_start_traced ch t 0) = find_start ch t 0 \<and>
   snd (find_start_traced ch t 0) =
     [0..<min (length ch) (Suc (length (takeWhile (\<lambda>x. fst x < t) ch)))]"
  using find_start_reads [of 0 ch t] by (simp add: find_start_traced_fst)

theorem find_start_scans_from_the_start_witness:
  "six \<noteq> [] \<and> sorted (map fst six) \<and>
   fst (find_start_traced six 5 0) = Inr (Some 5) \<and>
   snd (find_start_traced six 5 0) = [0, 1, 2, 3, 4, 5]"
proof -
  have a: "six \<noteq> []" by (simp add: six_def)
  have b: "sorted (map fst six)" by (simp add: six_def)
  have c: "find_start six 5 0 = Inr (Some 5)"
    using find_start_eq [of 0 six 5] by (simp add: six_def)
  have d: "[0..<6] = [0, 1, 2, 3, 4, 5::nat]" by (simp add: upt_rec)
  show ?thesis using a b c d find_start_scans_from_the_start [OF a, of 5]
    by (simp add: six_def)
qed

subsection \<open>The recording loop\<close>

lemma then_do_Nil: "then_do (Inr ([], s)) f = f s"
  by (cases "f s") (auto simp: then_do_def)

lemma py_index_nat: "i < length xs \<Longrightarrow> py_index xs (int i) = Inr (xs ! i)"
  by (simp add: py_index_def)

lemma add_data_present:
  "channels s name = Some xs \<Longrightarrow>
   add_data s name data = Inr ([], s\<lparr>channels := (channels s)(name \<mapsto> xs @ [data])\<rparr>)"
  by (simp add: add_data_def)

lemma add_pulled_effect:
  assumes "eeg_channel_names s = Some names" and "distinct names"
    and "length smp \<le> length names"
    and "\<forall>n\<in>set names. channels s n \<noteq> None"
    and "float_add ts tc = Finite t"
  shows "\<exists>s'. add_pulled s smp ts tc i = Inr ([], s') \<and>
           eeg_channel_names s' = Some names \<and>
           eeg_thread_active s' = eeg_thread_active s \<and>
           (\<forall>j<length names. channels s' (names ! j) =
              (if i \<le> j \<and> j < length smp
               then Some (the (channels s (names ! j)) @ [(t, smp ! j)])
               else channels s (names ! j))) \<and>
           (\<forall>n. n \<notin> set names \<longrightarrow> channels s' n = channels s n)"
  using assms
proof (induction s smp ts tc i rule: add_pulled.induct)
  case (1 s smp ts tc i)
  show ?case
  proof (cases "i < length smp")
    case False
    then have "add_pulled s smp ts tc i = Inr ([], s)"
      using add_pulled.simps [of s smp ts tc i] by simp
    then show ?thesis using False "1.prems"(1) by auto
  next
    case True
    then have il: "i < length names" using "1.prems"(3) by simp
    then have ix: "py_index names (int i) = Inr (names ! i)" by (rule py_index_nat)
    from il "1.prems"(4) obtain xs where xs: "channels s (names ! i) = Some xs"
      by (metis nth_mem option.exhaust)
    let ?s1 = "s\<lparr>channels := (channels s)(names ! i \<mapsto> xs @ [(t, smp ! i)])\<rparr>"
    have ad: "add_data s (names ! i) (t, smp ! i) = Inr ([], ?s1)"
      using xs by (rule add_data_present)
    have step: "add_pulled s smp ts tc i = add_pulled ?s1 smp ts tc (Suc i)"
      using add_pulled.simps [of s smp ts tc i] True "1.prems"(1) "1.prems"(5) ix ad
      by (simp add: then_do_Nil)
    have p1: "eeg_channel_names ?s1 = Some names" using "1.prems"(1) by simp
    have p4: "\<forall>n\<in>set names. channels ?s1 n \<noteq> None" using "1.prems"(4) by simp
    from "1.IH" [OF True "1.prems"(1) ix "1.prems"(5) p1 "1.prems"(2) "1.prems"(3) p4 "1.prems"(5)]
    obtain s' where s': "add_pulled ?s1 smp ts tc (Suc i) = Inr ([], s')"
      "eeg_channel_names s' = Some names"
      "eeg_thread_active s' = eeg_thread_active ?s1"
      "\<forall>j<length names. channels s' (names ! j) =
              (if Suc i \<le> j \<and> j < length smp
               then Some (the (channels ?s1 (names ! j)) @ [(t, smp ! j)])
               else channels ?s1 (names ! j))"
      "\<forall>n. n \<notin> set names \<longrightarrow> channels s' n = channels ?s1 n"
      by blast
    have res: "add_pulled s smp ts tc i = Inr ([], s')" using step s'(1) by simp
    have ch: "\<forall>j<length names. channels s' (names ! j) =
              (if i \<le> j \<and> j < length smp
               then Some (the (channels s (names ! j)) @ [(t, smp ! j)])
               else channels s (names ! j))"
    proof (intro allI impI)
      fix j assume j: "j < length names"
      have eq: "names ! j = names ! i \<longleftrightarrow> j = i"
        using "1.prems"(2) j il by (simp add: nth_eq_iff_index_eq)
      show "channels s' (names ! j) =
              (if i \<le> j \<and> j < length smp
               then Some (the (channels s (names ! j)) @ [(t, smp ! j)])
               else channels s (names ! j))"
      proof (cases "j = i")
        case True
        then show ?thesis using s'(4) j xs \<open>i < length smp\<close> by simp
      next
        case False
        then show ?thesis using s'(4) j eq by auto
      qed
    qed
    have other: "\<forall>n. n \<notin> set names \<longrightarrow> channels s' n = channels s n"
    proof (intro allI impI)
      fix n assume n: "n \<notin> set names"
      then have "n \<noteq> names ! i" using il by auto
      then show "channels s' n = channels s n" using s'(5) n by simp
    qed
    show ?thesis using res s'(2) s'(3) ch other by simp
  qed
qed

lemma record_loop_effect:
  assumes "eeg_channel_names s = Some names" and "distinct names"
    and "\<forall>p\<in>set pulls. length (samples p) \<le> length names"
    and "\<forall>n\<in>set names. channels s n \<noteq> None"
    and "eeg_thread_active s"
    and "\<forall>p\<in>set pulls. \<exists>t. float_add (timestamp p) (time_correction p) = Finite t"
  shows "\<exists>s'. record_loop s pulls = Inr ([], s') \<and>
           (\<forall>j<length names. channels s' (names ! j) =
              Some (the (channels s (names ! j)) @ stamped j pulls)) \<and>
           (\<forall>n. n \<notin> set names \<longrightarrow> channels s' n = channels s n)"
  using assms
proof (induction pulls arbitrary: s)
  case Nil
  then show ?case by (auto simp: stamped_def)
next
  case (Cons p ps)
  from Cons.prems(6) obtain t where t: "float_add (timestamp p) (time_correction p) = Finite t"
    by auto
  have len: "length (samples p) \<le> length names" using Cons.prems(3) by simp
  from add_pulled_effect [OF Cons.prems(1) Cons.prems(2) len Cons.prems(4) t, of 0]
  obtain s1 where s1: "add_pulled s (samples p) (timestamp p) (time_correction p) 0 = Inr ([], s1)"
    "eeg_channel_names s1 = Some names"
    "eeg_thread_active s1 = eeg_thread_active s"
    "\<forall>j<length names. channels s1 (names ! j) =
              (if 0 \<le> j \<and> j < length (samples p)
               then Some (the (channels s (names ! j)) @ [(t, samples p ! j)])
               else channels s (names ! j))"
    "\<forall>n. n \<notin> set names \<longrightarrow> channels s1 n = channels s n"
    by blast
  have step: "record_loop s (p # ps) = record_loop s1 ps"
    using Cons.prems(5) s1(1) by (simp add: then_do_Nil)
  have p3: "\<forall>p\<in>set ps. length (samples p) \<le> length names" using Cons.prems(3) by simp
  have p4: "\<forall>n\<in>set names. channels s1 n \<noteq> None"
  proof
    fix n assume "n \<in> set names"
    then obtain j where j: "j < length names" "names ! j = n" by (auto simp: in_set_conv_nth)
    then have "channels s (names ! j) \<noteq> None" using Cons.prems(4) by auto
    then show "channels s1 n \<noteq> None" using s1(4) j by auto
  qed
  have p5: "eeg_thread_active s1" using s1(3) Cons.prems(5) by simp
  have p6: "\<forall>p\<in>set ps. \<exists>t. float_add (timestamp p) (time_correction p) = Finite t"
    using Cons.prems(6) by simp
  from Cons.IH [OF s1(2) Cons.prems(2) p3 p4 p5 p6]
  obtain s' where s': "record_loop s1 ps = Inr ([], s')"
    "\<forall>j<length names. channels s' (names ! j) =
              Some (the (channels s1 (names ! j)) @ stamped j ps)"
    "\<forall>n. n \<notin> set names \<longrightarrow> channels s' n = channels s1 n"
    by blast
  have ch: "\<forall>j<length names. channels s' (names ! j) =
              Some (the (channels s (names ! j)) @ stamped j (p # ps))"
  proof (intro allI impI)
    fix j assume j: "j < length names"
    then have "channels s (names ! j) \<noteq> None" using Cons.prems(4) by auto
    then obtain xs where xs: "channels s (names ! j) = Some xs" by auto
    show "channels s' (names ! j) = Some (the (channels s (names ! j)) @ stamped j (p # ps))"
      using s'(2) s1(4) j xs t by (simp add: stamped_def finite_value_def)
  qed
  show ?case using step s'(1) ch s'(3) s1(5) by simp
qed

text \<open>The entries of \<open>stamped\<close>: one for each pull with a value, at the float sum.\<close>

lemma stamped_entries:
  assumes "\<forall>p\<in>set pulls. \<exists>t. float_add (timestamp p) (time_correction p) = Finite t"
  shows "list_all2
           (\<lambda>entry p. float_add (timestamp p) (time_correction p) = Finite (fst entry) \<and>
                      snd entry = samples p ! j)
           (stamped j pulls) (filter (\<lambda>p. j < length (samples p)) pulls)"
proof -
  have "\<forall>p\<in>set (filter (\<lambda>p. j < length (samples p)) pulls).
          float_add (timestamp p) (time_correction p) =
            Finite (the (finite_value (float_add (timestamp p) (time_correction p))))"
    using assms by (auto simp: finite_value_def)
  then show ?thesis
    unfolding stamped_def by (simp add: list_all2_map1 list_all2_same)
qed

lemma create_channels_effect:
  "\<exists>s'. create_channels s names = Inr ([], s') \<and>
        eeg_channel_names s' = eeg_channel_names s \<and>
        eeg_thread_active s' = eeg_thread_active s \<and>
        (\<forall>n. channels s' n =
           (if n \<in> set names \<and> channels s n = None then Some [] else channels s n))"
proof (induction names arbitrary: s)
  case Nil
  then show ?case by simp
next
  case (Cons x xs)
  show ?case
  proof (cases "channels s x")
    case None
    let ?s1 = "s\<lparr>channels := (channels s)(x \<mapsto> [])\<rparr>"
    have "create_channels s (x # xs) = create_channels ?s1 xs"
      using None by (simp add: list_channels_def add_channel_def then_do_Nil dom_def)
    moreover from Cons.IH [of ?s1] obtain s' where
      "create_channels ?s1 xs = Inr ([], s')"
      "eeg_channel_names s' = eeg_channel_names ?s1"
      "eeg_thread_active s' = eeg_thread_active ?s1"
      "\<forall>n. channels s' n =
           (if n \<in> set xs \<and> channels ?s1 n = None then Some [] else channels ?s1 n)"
      by blast
    ultimately show ?thesis using None by auto
  next
    case (Some ys)
    then have "create_channels s (x # xs) = create_channels s xs"
      by (simp add: list_channels_def dom_def)
    moreover from Cons.IH [of s] obtain s' where
      "create_channels s xs = Inr ([], s')"
      "eeg_channel_names s' = eeg_channel_names s"
      "eeg_thread_active s' = eeg_thread_active s"
      "\<forall>n. channels s' n =
           (if n \<in> set xs \<and> channels s n = None then Some [] else channels s n)"
      by blast
    ultimately show ?thesis using Some by auto
  qed
qed

text \<open>
  Claim C8. Let the object be recording, with channel names that are pairwise distinct,
  let every pull have at most as many values as there are names, and let the float sum
  \<^verbatim>\<open>timestamp + time_correction\<close> of every pull be finite. Run on a list of pulls,
  \<^verbatim>\<open>_record_lsl_data_indefinitely\<close> raises nothing and prints nothing, and it leaves in the
  channel of each name what the channel held before (nothing, if the channel was
  created by the run) followed by exactly one new entry for each pull that has a value
  for that name, in the order of the pulls: the entry holds the pull's value, and its
  timestamp is the sum \<^verbatim>\<open>timestamp + time_correction\<close> as Python's float addition gives it.
  Channels of other names are not changed. The witness is the scenario of the claim:
  three pulls for C1 and C2 at 10, 11, 12 with correction 0.5, then \<^verbatim>\<open>lsl_stop\<close>, then
  the query of each channel.
\<close>

theorem record_lsl_data_appends:
  assumes "eeg_channel_names s = Some names" and "distinct names"
    and "\<forall>p\<in>set pulls. length (samples p) \<le> length names"
    and "eeg_thread_active s"
    and "\<forall>p\<in>set pulls. \<exists>t. float_add (timestamp p) (time_correction p) = Finite t"
  shows "\<exists>s'. record_lsl_data_indefinitely s pulls = Inr ([], s') \<and>
           (\<forall>j<length names. \<exists>new.
              channels s' (names ! j) =
                Some ((case channels s (names ! j) of None \<Rightarrow> [] | Some xs \<Rightarrow> xs) @ new) \<and>
              list_all2
                (\<lambda>entry p. float_add (timestamp p) (time_correction p) = Finite (fst entry) \<and>
                           snd entry = samples p ! j)
                new (filter (\<lambda>p. j < length (samples p)) pulls)) \<and>
           (\<forall>n. n \<notin> set names \<longrightarrow> channels s' n = channels s n)"
proof -
  from create_channels_effect [of s names]
  obtain s1 where s1: "create_channels s names = Inr ([], s1)"
    "eeg_channel_names s1 = eeg_channel_names s"
    "eeg_thread_active s1 = eeg_thread_active s"
    "\<forall>n. channels s1 n =
           (if n \<in> set names \<and> channels s n = None then Some [] else channels s n)"
    by blast
  have q1: "eeg_channel_names s1 = Some names" using s1(2) assms(1) by simp
  have q4: "\<forall>n\<in>set names. channels s1 n \<noteq> None" using s1(4) by auto
  have q5: "eeg_thread_active s1" using s1(3) assms(4) by simp
  from record_loop_effect [OF q1 assms(2) assms(3) q4 q5 assms(5)]
  obtain s' where s': "record_loop s1 pulls = Inr ([], s')"
    "\<forall>j<length names. channels s' (names ! j) =
              Some (the (channels s1 (names ! j)) @ stamped j pulls)"
    "\<forall>n. n \<notin> set names \<longrightarrow> channels s' n = channels s1 n"
    by blast
  have run: "record_lsl_data_indefinitely s pulls = Inr ([], s')"
    using assms(1) s1(1) s'(1) by (simp add: record_lsl_data_indefinitely_def then_do_Nil)
  have ch: "\<forall>j<length names. \<exists>new.
              channels s' (names ! j) =
                Some ((case channels s (names ! j) of None \<Rightarrow> [] | Some xs \<Rightarrow> xs) @ new) \<and>
              list_all2
                (\<lambda>entry p. float_add (timestamp p) (time_correction p) = Finite (fst entry) \<and>
                           snd entry = samples p ! j)
                new (filter (\<lambda>p. j < length (samples p)) pulls)"
  proof (intro allI impI)
    fix j assume j: "j < length names"
    have "channels s' (names ! j) =
            Some ((case channels s (names ! j) of None \<Rightarrow> [] | Some xs \<Rightarrow> xs) @ stamped j pulls)"
      using s'(2) s1(4) j by (auto split: option.splits)
    then show "\<exists>new.
              channels s' (names ! j) =
                Some ((case channels s (names ! j) of None \<Rightarrow> [] | Some xs \<Rightarrow> xs) @ new) \<and>
              list_all2
                (\<lambda>entry p. float_add (timestamp p) (time_correction p) = Finite (fst entry) \<and>
                           snd entry = samples p ! j)
                new (filter (\<lambda>p. j < length (samples p)) pulls)"
      using stamped_entries [OF assms(5), of j] by blast
  qed
  have other: "\<forall>n. n \<notin> set names \<longrightarrow> channels s' n = channels s n"
    using s'(3) s1(4) by simp
  show ?thesis using run ch other by blast
qed

theorem record_lsl_data_appends_witness:
  "lsl_start connected = Inr ([], streaming) \<and>
   eeg_channel_names streaming = Some [''C1'', ''C2''] \<and> distinct [''C1'', ''C2''] \<and>
   list_all (\<lambda>p. length (samples p) \<le> length [''C1'', ''C2'']) three_pulls \<and>
   eeg_thread_active streaming \<and>
   map (\<lambda>p. float_add (timestamp p) (time_correction p)) three_pulls
     = [Finite 10.5, Finite 11.5, Finite 12.5] \<and>
   (\<exists>s2 s3. record_lsl_data_indefinitely streaming three_pulls = Inr ([], s2) \<and>
      lsl_stop s2 = Inr ([], s3) \<and>
      get_data s3 (Name ''C1'') None None = Inr (Data [(10.5, 1), (11.5, 3), (12.5, 5)]) \<and>
      get_data s3 (Name ''C2'') None None = Inr (Data [(10.5, 2), (11.5, 4), (12.5, 6)]))"
proof -
  have a: "lsl_start connected = Inr ([], streaming)"
    by (simp add: lsl_start_def streaming_def connected_def init_def Let_def)
  have b: "eeg_channel_names streaming = Some [''C1'', ''C2'']"
    by (simp add: streaming_def connected_def)
  have c: "distinct [''C1'', ''C2'']" by simp
  have d: "\<forall>p\<in>set three_pulls. length (samples p) \<le> length [''C1'', ''C2'']"
    by (simp add: three_pulls_def)
  have e: "eeg_thread_active streaming" by (simp add: streaming_def)
  have f: "channels streaming = Map.empty"
    by (simp add: streaming_def connected_def init_def)
  have sums: "map (\<lambda>p. float_add (timestamp p) (time_correction p)) three_pulls
     = [Finite 10.5, Finite 11.5, Finite 12.5]"
    using float_add_10 float_add_11 float_add_12 by (simp add: three_pulls_def)
  have g: "\<forall>p\<in>set three_pulls. \<exists>t. float_add (timestamp p) (time_correction p) = Finite t"
  proof
    fix p :: "nat pull"
    assume "p \<in> set three_pulls"
    then have "float_add (timestamp p) (time_correction p)
                 \<in> set (map (\<lambda>p. float_add (timestamp p) (time_correction p)) three_pulls)"
      by simp
    then have "float_add (timestamp p) (time_correction p)
                 \<in> set [Finite 10.5, Finite 11.5, Finite 12.5]"
      unfolding sums .
    then show "\<exists>t. float_add (timestamp p) (time_correction p) = Finite t" by auto
  qed
  from record_lsl_data_appends [OF b c d e g]
  obtain s2 where run: "record_lsl_data_indefinitely streaming three_pulls = Inr ([], s2)"
    and ch: "\<forall>j<length [''C1'', ''C2'']. \<exists>new.
              channels s2 ([''C1'', ''C2''] ! j) =
                Some ((case channels streaming ([''C1'', ''C2''] ! j) of
                         None \<Rightarrow> [] | Some xs \<Rightarrow> xs) @ new) \<and>
              list_all2
                (\<lambda>entry p. float_add (timestamp p) (time_correction p) = Finite (fst entry) \<and>
                           snd entry = samples p ! j)
                new (filter (\<lambda>p. j < length (samples p)) three_pulls)"
    by blast
  from ch [rule_format, of 0] obtain new1 where
    n1: "channels s2 ''C1'' = Some new1"
    and l1: "list_all2
                (\<lambda>entry p. float_add (timestamp p) (time_correction p) = Finite (fst entry) \<and>
                           snd entry = samples p ! 0)
                new1 three_pulls"
    using f by (auto simp: three_pulls_def)
  from ch [rule_format, of 1] obtain new2 where
    n2: "channels s2 ''C2'' = Some new2"
    and l2: "list_all2
                (\<lambda>entry p. float_add (timestamp p) (time_correction p) = Finite (fst entry) \<and>
                           snd entry = samples p ! 1)
                new2 three_pulls"
    using f by (auto simp: three_pulls_def)
  have c1: "new1 = [(10.5, 1), (11.5, 3), (12.5, 5)]"
    using l1 float_add_10 float_add_11 float_add_12
    by (auto simp: three_pulls_def list_all2_Cons2 prod_eq_iff)
  have c2: "new2 = [(10.5, 2), (11.5, 4), (12.5, 6)]"
    using l2 float_add_10 float_add_11 float_add_12
    by (auto simp: three_pulls_def list_all2_Cons2 prod_eq_iff)
  let ?s3 = "s2\<lparr>eeg_thread_active := False, eeg_thread := None\<rparr>"
  have stop: "lsl_stop s2 = Inr ([], ?s3)" by (simp add: lsl_stop_def)
  have g1: "get_data ?s3 (Name ''C1'') None None = Inr (Data [(10.5, 1), (11.5, 3), (12.5, 5)])"
    using n1 c1 by (simp add: get_data_def get_data_one_def)
  have g2: "get_data ?s3 (Name ''C2'') None None = Inr (Data [(10.5, 2), (11.5, 4), (12.5, 6)])"
    using n2 c2 by (simp add: get_data_def get_data_one_def)
  have l: "list_all (\<lambda>p. length (samples p) \<le> length [''C1'', ''C2'']) three_pulls"
    by (simp add: three_pulls_def)
  show ?thesis using a b c l e sums run stop g1 g2 by blast
qed

subsection \<open>Appending and reading back\<close>

text \<open>
  On the model with entries as values: after a list of entries is appended to an
  existing channel, the query without a start time returns what the channel held
  before followed by the appended entries, in the order of the appends.
\<close>

lemma add_all_round_trip:
  "channels s c = Some xs \<Longrightarrow>
   \<exists>s'. add_all s c ds = Inr ([], s') \<and> get_data s' (Name c) None None = Inr (Data (xs @ ds))"
proof (induction ds arbitrary: s xs)
  case Nil
  then show ?case by (simp add: get_data_def get_data_one_def)
next
  case (Cons d ds)
  let ?s1 = "s\<lparr>channels := (channels s)(c \<mapsto> xs @ [d])\<rparr>"
  have "add_all s c (d # ds) = add_all ?s1 c ds"
    using Cons.prems by (simp add: add_data_present then_do_Nil)
  moreover have "channels ?s1 c = Some (xs @ [d])" by simp
  ultimately show ?case using Cons.IH [of ?s1 "xs @ [d]"] by simp
qed

text \<open>The same on the store of objects, with the objects that are shared.\<close>

lemma ref_ok_append: "ref_ok os v \<Longrightarrow> ref_ok (os @ [x]) v"
  by (cases v) (simp_all add: ref_ok_def)

text \<open>A new channel keeps the references of the store valid.\<close>

lemma heap_ok_add_channel:
  assumes "heap_ok st" and "h_add_channel st name = Inr (out, st')"
  shows "heap_ok st'"
proof (cases "channel_refs st name")
  case (Some a)
  then show ?thesis using assms by (simp add: h_add_channel_def)
next
  case None
  then have st': "st' = st\<lparr>objs := objs st @ [[]],
                        channel_refs := (channel_refs st)(name \<mapsto> length (objs st))\<rparr>"
    using assms(2) by (simp add: h_add_channel_def)
  have "\<forall>xs\<in>set (objs st). \<forall>v\<in>set xs. ref_ok (objs st) v"
    using assms(1) by (simp add: heap_ok_def list_all_iff)
  then have "\<forall>xs\<in>set (objs st). \<forall>v\<in>set xs. ref_ok (objs st @ [[]]) v"
    using ref_ok_append by blast
  then have all: "list_all (list_all (ref_ok (objs st @ [[]]))) (objs st @ [[]])"
    by (simp add: list_all_iff)
  have "\<forall>n a. channel_refs st n = Some a \<longrightarrow> a < length (objs st)"
    using assms(1) by (simp add: heap_ok_def)
  then have "\<forall>n a. ((channel_refs st)(name \<mapsto> length (objs st))) n = Some a \<longrightarrow>
                 a < length (objs st @ [[]])"
    by (auto simp: less_Suc_eq)
  then show ?thesis using all st' by (simp add: heap_ok_def)
qed

lemma h_add_all_effect:
  "channel_refs st c = Some a \<Longrightarrow> a < length (objs st) \<Longrightarrow>
   h_add_all st c ds = Inr ([], st\<lparr>objs := (objs st)[a := objs st ! a @ ds]\<rparr>)"
proof (induction ds arbitrary: st)
  case Nil
  then show ?case by simp
next
  case (Cons d ds)
  let ?st1 = "st\<lparr>objs := (objs st)[a := objs st ! a @ [d]]\<rparr>"
  have one: "h_add_data st c d = Inr ([], ?st1)" using Cons.prems(1) by (simp add: h_add_data_def)
  have r: "channel_refs ?st1 c = Some a" using Cons.prems(1) by simp
  have l: "a < length (objs ?st1)" using Cons.prems(2) by simp
  have "h_add_all ?st1 c ds = Inr ([], ?st1\<lparr>objs := (objs ?st1)[a := objs ?st1 ! a @ ds]\<rparr>)"
    using Cons.IH [OF r l] .
  then show ?case using one Cons.prems(2) by simp
qed

lemma read_entry_append:
  "ref_ok os v \<Longrightarrow> read_entry (os @ [x]) v = read_entry os v"
  by (cases v) (simp_all add: ref_ok_def read_entry_def nth_append)

lemma channel_view_append:
  assumes "heap_ok st"
  shows "channel_view (st\<lparr>objs := objs st @ [x]\<rparr>) n = channel_view st n"
proof (cases "channel_refs st n")
  case None
  then show ?thesis by (simp add: channel_view_def)
next
  case (Some b)
  then have b: "b < length (objs st)" using assms by (simp add: heap_ok_def)
  then have "list_all (ref_ok (objs st)) (objs st ! b)"
    using assms by (simp add: heap_ok_def list_all_length)
  then have "map (read_entry (objs st @ [x])) (objs st ! b) = map (read_entry (objs st)) (objs st ! b)"
    by (simp add: list_all_iff read_entry_append)
  then show ?thesis using Some b by (simp add: channel_view_def nth_append)
qed

lemma heap_ok_add_all:
  assumes "heap_ok st" and "a < length (objs st)" and "list_all (ref_ok (objs st)) ds"
  shows "heap_ok (st\<lparr>objs := (objs st)[a := objs st ! a @ ds]\<rparr>)"
proof -
  let ?os = "objs st" and ?os' = "(objs st)[a := objs st ! a @ ds]"
  have same: "ref_ok ?os' = ref_ok ?os"
    by (auto simp: ref_ok_def fun_eq_iff split: pyval.splits)
  have all: "list_all (list_all (ref_ok ?os)) ?os" using assms(1) by (simp add: heap_ok_def)
  have "list_all (ref_ok ?os) (?os ! a)"
    using all assms(2) nth_mem [of a ?os] by (auto simp: list_all_iff)
  then have new: "list_all (ref_ok ?os) (?os ! a @ ds)"
    using assms(3) by simp
  have "\<forall>xs\<in>set ?os'. list_all (ref_ok ?os) xs"
  proof
    fix xs assume "xs \<in> set ?os'"
    then have "xs \<in> insert (?os ! a @ ds) (set ?os)"
      using set_update_subset_insert [of ?os a "?os ! a @ ds"] by blast
    then show "list_all (ref_ok ?os) xs" using new all by (auto simp: list_all_iff)
  qed
  then have "list_all (list_all (ref_ok ?os)) ?os'"
    by (simp add: list_all_iff)
  then show ?thesis using assms(1) same by (simp add: heap_ok_def)
qed

text \<open>
  Claim C2, as stated, fails. The list that \<^verbatim>\<open>get_data\<close> returns is a new list, but its
  elements are the entry objects of the channel. With the channel \<^verbatim>\<open>ch\<close> holding the entry
  \<^verbatim>\<open>[1.0, 7]\<close>, the caller's \<^verbatim>\<open>q = get_data('ch'); q[0][0] = 99\<close> changes what the store holds
  for \<^verbatim>\<open>ch\<close> from the entry at time 1 to an entry at time 99.
\<close>

theorem h_get_data_shares_entries:
  "\<exists>st1 st2. h_get_data heap0 ''ch'' = Inr (3, st1) \<and>
     objs st1 ! 3 = [Ref 1] \<and>
     channel_view st1 ''ch'' = Some [Some (1, 7)] \<and>
     h_setitem2 st1 3 0 0 (Float 99) = Inr st2 \<and>
     channel_view st2 ''ch'' = Some [Some (99, 7)] \<and>
     channel_view st2 ''ch'' \<noteq> channel_view st1 ''ch''"
  by (simp add: h_get_data_def heap0_def h_setitem2_def channel_view_def read_entry_def)

text \<open>
  Claim C2, amended. Let a list of references be appended, one \<^verbatim>\<open>add_data\<close> after the
  other, to an existing channel of a store whose references are all valid. Then
  \<^verbatim>\<open>get_data\<close> without a start time returns a new list object that holds exactly the
  channel's references from before followed by the appended ones, in the order of the
  appends, and that reads as the channel reads. The call changes nothing of what the
  store holds. The copy is shallow: every change of the returned list itself
  (replacing its elements by any others) leaves every channel of the store as it was.
  The amended claim says nothing about changes of the entries that the returned list
  refers to: these are the store's own objects.
\<close>

theorem h_get_data_is_shallow_copy:
  assumes "heap_ok st" and "channel_refs st c = Some a"
    and "list_all (ref_ok (objs st)) ds"
  shows "\<exists>st' r st''.
           h_add_all st c ds = Inr ([], st') \<and>
           h_get_data st' c = Inr (r, st'') \<and>
           objs st'' ! r = objs st ! a @ ds \<and>
           channel_view st'' c = Some (map (read_entry (objs st'')) (objs st'' ! r)) \<and>
           channel_refs st'' = channel_refs st \<and>
           (\<forall>n. channel_view st'' n = channel_view st' n) \<and>
           (\<forall>ys. channel_refs (h_replace st'' r ys) = channel_refs st'' \<and>
                 (\<forall>n. channel_view (h_replace st'' r ys) n = channel_view st'' n))"
proof -
  have a: "a < length (objs st)" using assms(1) assms(2) by (simp add: heap_ok_def)
  let ?st' = "st\<lparr>objs := (objs st)[a := objs st ! a @ ds]\<rparr>"
  let ?r = "length (objs ?st')"
  let ?st'' = "?st'\<lparr>objs := objs ?st' @ [objs ?st' ! a]\<rparr>"
  have add: "h_add_all st c ds = Inr ([], ?st')" using assms(2) a by (rule h_add_all_effect)
  have get: "h_get_data ?st' c = Inr (?r, ?st'')" using assms(2) by (simp add: h_get_data_def)
  have ok: "heap_ok ?st'" using assms(1) a assms(3) by (rule heap_ok_add_all)
  have res: "objs ?st'' ! ?r = objs st ! a @ ds" using a by (simp add: nth_append)
  have v2: "\<forall>n. channel_view ?st'' n = channel_view ?st' n"
    using channel_view_append [OF ok] by simp
  have vc: "channel_view ?st'' c = Some (map (read_entry (objs ?st'')) (objs ?st'' ! ?r))"
    using assms(2) a by (simp add: channel_view_def nth_append)
  have rep: "\<forall>ys. channel_refs (h_replace ?st'' ?r ys) = channel_refs ?st'' \<and>
                 (\<forall>n. channel_view (h_replace ?st'' ?r ys) n = channel_view ?st'' n)"
  proof (intro allI conjI)
    fix ys n
    show "channel_refs (h_replace ?st'' ?r ys) = channel_refs ?st''" by (simp add: h_replace_def)
    have "(objs ?st' @ [objs ?st' ! a])[?r := ys] = objs ?st' @ [ys]"
      by (rule list_update_length)
    then have "h_replace ?st'' ?r ys = ?st'\<lparr>objs := objs ?st' @ [ys]\<rparr>"
      by (simp add: h_replace_def)
    then have "channel_view (h_replace ?st'' ?r ys) n = channel_view ?st' n"
      using channel_view_append [OF ok] by simp
    then show "channel_view (h_replace ?st'' ?r ys) n = channel_view ?st'' n"
      using v2 by simp
  qed
  have refs: "channel_refs ?st'' = channel_refs st" by simp
  show ?thesis using add get res vc refs v2 rep by blast
qed

theorem h_get_data_is_shallow_copy_witness:
  "heap_ok heap1 \<and> channel_refs heap1 ''ch'' = Some 0 \<and>
   list_all (ref_ok (objs heap1)) [Ref 1, Ref 2] \<and>
   (\<exists>st' r st''.
      h_add_all heap1 ''ch'' [Ref 1, Ref 2] = Inr ([], st') \<and>
      h_get_data st' ''ch'' = Inr (r, st'') \<and>
      objs st'' ! r = [Ref 1, Ref 2] \<and>
      channel_view st'' ''ch'' = Some (map (read_entry (objs st'')) [Ref 1, Ref 2]) \<and>
      (\<forall>ys. channel_view (h_replace st'' r ys) ''ch'' = channel_view st'' ''ch''))"
proof -
  have a: "heap_ok heap1" by (simp add: heap_ok_def heap1_def ref_ok_def)
  have b: "channel_refs heap1 ''ch'' = Some 0" by (simp add: heap1_def)
  have c: "list_all (ref_ok (objs heap1)) [Ref 1, Ref 2]" by (simp add: heap1_def ref_ok_def)
  have d: "objs heap1 ! 0 = []" by (simp add: heap1_def)
  from h_get_data_is_shallow_copy [OF a b c]
  obtain st' r st'' where
    "h_add_all heap1 ''ch'' [Ref 1, Ref 2] = Inr ([], st')"
    "h_get_data st' ''ch'' = Inr (r, st'')"
    "objs st'' ! r = objs heap1 ! 0 @ [Ref 1, Ref 2]"
    "channel_view st'' ''ch'' = Some (map (read_entry (objs st'')) (objs st'' ! r))"
    "\<forall>ys. channel_refs (h_replace st'' r ys) = channel_refs st'' \<and>
          (\<forall>n. channel_view (h_replace st'' r ys) n = channel_view st'' n)"
    by blast
  then have "h_add_all heap1 ''ch'' [Ref 1, Ref 2] = Inr ([], st') \<and>
      h_get_data st' ''ch'' = Inr (r, st'') \<and>
      objs st'' ! r = [Ref 1, Ref 2] \<and>
      channel_view st'' ''ch'' = Some (map (read_entry (objs st'')) [Ref 1, Ref 2]) \<and>
      (\<forall>ys. channel_view (h_replace st'' r ys) ''ch'' = channel_view st'' ''ch'')"
    using d by simp
  then show ?thesis using a b c by blast
qed

end
